theory Spec2Isabelle
  imports Main "HOL-Library.Sublist"
begin

section \<open>Scoring parameters (align/smith\_waterman.go, lines 4-8)\<close>

definition MatchScore :: int where
  "MatchScore = 2"

definition MismatchScore :: int where
  "MismatchScore = - 1"

definition GapPenalty :: int where
  "GapPenalty = - 2"

section \<open>Data model\<close>

text \<open>
  A Go \<^verbatim>\<open>string\<close> is a sequence of bytes, indexed and measured in bytes: it is a
  \<^typ>\<open>string\<close> (a list of 8-bit characters). A Go \<^verbatim>\<open>int\<close> is 64 bits wide. Every
  score the fill loops compute lies between 0 and twice the smaller index of its cell
  (lemma \<open>spec_cell_le\<close> below), so the fill is modelled over \<^typ>\<open>int\<close>, with indices in
  \<^typ>\<open>nat\<close>. The traceback takes its matrix from its caller: there the sums wrap around.
\<close>

record AlignmentResult =
  ScoreMatrix :: "int list list"
  MaxScore :: int
  AlignedQuery :: string
  AlignedRef :: string

text \<open>
  The conversion \<^verbatim>\<open>string(b)\<close> of a byte \<open>b\<close>: Go converts an integer to the UTF-8
  encoding of the code point with that number. Below 128 that is the byte itself; from
  128 to 255 it is a two-byte sequence.
\<close>

definition string_of_byte :: "char \<Rightarrow> string" where
  "string_of_byte c =
     (let n = (of_char c :: nat)
      in if n < 128 then [c] else [char_of (192 + n div 64), char_of (128 + n mod 64)])"

text \<open>
  The values of a Go \<^verbatim>\<open>int\<close> are the integers from \<open>- 2^63\<close> to \<open>2^63 - 1\<close>, and a sum
  that leaves this range wraps around. \<open>wrap64\<close> maps an integer to the value of that
  range it is congruent to modulo \<open>2^64\<close>; it leaves the values of the range as they are.
\<close>

definition wrap64 :: "int \<Rightarrow> int" where
  "wrap64 x = (x + 2 ^ 63) mod 2 ^ 64 - 2 ^ 63"

text \<open>Index expressions that can leave their range: \<open>None\<close> is the run-time panic.\<close>

definition byte_at :: "string \<Rightarrow> nat \<Rightarrow> char option" where
  "byte_at s i = (if i < length s then Some (s ! i) else None)"

definition cell :: "int list list \<Rightarrow> nat \<Rightarrow> nat \<Rightarrow> int option" where
  "cell matrix i j =
     (if i < length matrix \<and> j < length (matrix ! i) then Some (matrix ! i ! j) else None)"

section \<open>The sequential aligner (align/smith\_waterman.go)\<close>

text \<open>\<^verbatim>\<open>smithMax\<close> (lines 124-132); every call passes four values.\<close>

fun smithMax :: "int list \<Rightarrow> int" where
  "smithMax (v0 # values) = fold (\<lambda>v maxVal. if v > maxVal then v else maxVal) values v0"

text \<open>
  The body of the fill loops up to the assignment of the cell (lines 42-53; the same
  text is lines 81-92 of the parallel aligner). The loop bounds keep every index in
  range: \<open>1 \<le> i \<le> m\<close> and \<open>1 \<le> j \<le> n\<close> on a matrix of \<open>m + 1\<close> rows of \<open>n + 1\<close> cells.
\<close>

definition cell_score :: "int list list \<Rightarrow> string \<Rightarrow> string \<Rightarrow> nat \<Rightarrow> nat \<Rightarrow> int" where
  "cell_score matrix query reference i j =
     (let match = (if query ! (i - 1) = reference ! (j - 1) then MatchScore else MismatchScore);
          scoreDiag = matrix ! (i - 1) ! (j - 1) + match;
          scoreUp = matrix ! (i - 1) ! j + GapPenalty;
          scoreLeft = matrix ! i ! (j - 1) + GapPenalty
      in smithMax [0, scoreDiag, scoreUp, scoreLeft])"

definition set_cell :: "int list list \<Rightarrow> nat \<Rightarrow> nat \<Rightarrow> int \<Rightarrow> int list list" where
  "set_cell matrix i j v = matrix[i := (matrix ! i)[j := v]]"

record fill_state =
  cur_matrix :: "int list list"
  cur_maxScore :: int
  cur_maxRow :: nat
  cur_maxCol :: nat

definition new_matrix :: "nat \<Rightarrow> nat \<Rightarrow> int list list" where
  "new_matrix m n = replicate (m + 1) (replicate (n + 1) 0)"

definition fill_init :: "nat \<Rightarrow> nat \<Rightarrow> fill_state" where
  "fill_init m n = \<lparr>cur_matrix = new_matrix m n, cur_maxScore = 0, cur_maxRow = 0, cur_maxCol = 0\<rparr>"

text \<open>One iteration of the inner loop (lines 41-59).\<close>

definition fill_cell :: "string \<Rightarrow> string \<Rightarrow> nat \<Rightarrow> nat \<Rightarrow> fill_state \<Rightarrow> fill_state" where
  "fill_cell query reference i j st =
     (let v = cell_score (cur_matrix st) query reference i j;
          st' = st\<lparr>cur_matrix := set_cell (cur_matrix st) i j v\<rparr>
      in if v > cur_maxScore st' then st'\<lparr>cur_maxScore := v, cur_maxRow := i, cur_maxCol := j\<rparr>
         else st')"

definition fill_row :: "string \<Rightarrow> string \<Rightarrow> nat \<Rightarrow> fill_state \<Rightarrow> fill_state" where
  "fill_row query reference i st =
     fold (fill_cell query reference i) [1 ..< length reference + 1] st"

definition fill :: "string \<Rightarrow> string \<Rightarrow> fill_state" where
  "fill query reference =
     fold (fill_row query reference) [1 ..< length query + 1]
       (fill_init (length query) (length reference))"

text \<open>
  \<^verbatim>\<open>traceback\<close> (lines 85-121). The loop prepends to both strings, so the loop
  function carries them. Its matrix and start cell come from the caller, so each
  index expression is checked in the order the code evaluates it, and each of the
  three sums wraps around. The cells of a Go matrix are values of the \<^verbatim>\<open>int\<close> range, so
  each test \<^verbatim>\<open>currentScore == ...\<close> compares two values of that range: \<open>wrap64\<close> on the
  left-hand side leaves such a cell as it is.
\<close>

function traceback_loop ::
  "int list list \<Rightarrow> string \<Rightarrow> string \<Rightarrow> nat \<Rightarrow> nat \<Rightarrow> string \<Rightarrow> string \<Rightarrow> (string \<times> string) option"
where
  "traceback_loop matrix query reference row col alignedQuery alignedRef =
     (if row > 0 \<and> col > 0 then
        (case cell matrix row col of
           None \<Rightarrow> None
         | Some currentScore \<Rightarrow>
             if currentScore > 0 then
               (case byte_at query (row - 1) of
                  None \<Rightarrow> None
                | Some qc \<Rightarrow>
                   (case byte_at reference (col - 1) of
                      None \<Rightarrow> None
                    | Some rc \<Rightarrow>
                       (let match = (if qc = rc then MatchScore else MismatchScore) in
                        (case cell matrix (row - 1) (col - 1) of
                           None \<Rightarrow> None
                         | Some diag \<Rightarrow>
                            if wrap64 currentScore = wrap64 (diag + match) then
                              traceback_loop matrix query reference (row - 1) (col - 1)
                                (string_of_byte qc @ alignedQuery) (string_of_byte rc @ alignedRef)
                            else
                              (case cell matrix (row - 1) col of
                                 None \<Rightarrow> None
                               | Some up \<Rightarrow>
                                  if wrap64 currentScore = wrap64 (up + GapPenalty) then
                                    traceback_loop matrix query reference (row - 1) col
                                      (string_of_byte qc @ alignedQuery) (''-'' @ alignedRef)
                                  else
                                    (case cell matrix row (col - 1) of
                                       None \<Rightarrow> None
                                     | Some left \<Rightarrow>
                                        if wrap64 currentScore = wrap64 (left + GapPenalty) then
                                          traceback_loop matrix query reference row (col - 1)
                                            (''-'' @ alignedQuery) (string_of_byte rc @ alignedRef)
                                        else Some (alignedQuery, alignedRef)))))))
             else Some (alignedQuery, alignedRef))
      else Some (alignedQuery, alignedRef))"
  by pat_completeness auto
termination
  by (relation "measure (\<lambda>(matrix, query, reference, row, col, aq, ar). row + col)") auto

declare traceback_loop.simps [simp del]

definition traceback ::
  "int list list \<Rightarrow> string \<Rightarrow> string \<Rightarrow> nat \<Rightarrow> nat \<Rightarrow> (string \<times> string) option" where
  "traceback matrix query reference row col =
     traceback_loop matrix query reference row col [] []"

text \<open>\<^verbatim>\<open>SmithWaterman\<close> (lines 26-72).\<close>

definition SmithWaterman :: "string \<Rightarrow> string \<Rightarrow> AlignmentResult option" where
  "SmithWaterman query reference =
     (let st = fill query reference in
      case traceback (cur_matrix st) query reference (cur_maxRow st) (cur_maxCol st) of
        None \<Rightarrow> None
      | Some (alignedQuery, alignedRef) \<Rightarrow>
          Some \<lparr>ScoreMatrix = cur_matrix st, MaxScore = cur_maxScore st,
                AlignedQuery = alignedQuery, AlignedRef = alignedRef\<rparr>)"

section \<open>The parallel aligner (align/parallel\_smith\_waterman.go)\<close>

record ParallelAlignmentResult =
  ScoreMatrix_p :: "int list list"
  MaxScore_p :: int
  MaxRow :: nat
  MaxCol :: nat
  AlignedQuery_p :: string
  AlignedRef_p :: string

text \<open>
  \<^verbatim>\<open>ParallelSmithWaterman\<close> starts one goroutine per wave (lines 68-105) and waits for
  all of them once, after the loop that starts them (line 108). The goroutines share
  the matrix and the running maximum; only the comparison with the maximum and its
  update run under the mutex (lines 96-101). Each goroutine has its loop variable
  \<open>i\<close>, the three scores it has read, and the point of the loop body it has reached.
\<close>

datatype wave_pc = AtLoop | ReadUp | ReadLeft | WriteCell | CheckCell | UpdateMax

record wave_local =
  loc_i :: nat
  loc_pc :: wave_pc
  loc_scoreDiag :: int
  loc_scoreUp :: int
  loc_scoreLeft :: int

record par_state =
  shared :: fill_state
  waves :: "wave_local list"

definition wave_start :: wave_local where
  "wave_start = \<lparr>loc_i = 1, loc_pc = AtLoop, loc_scoreDiag = 0, loc_scoreUp = 0, loc_scoreLeft = 0\<rparr>"

definition par_init :: "nat \<Rightarrow> nat \<Rightarrow> par_state" where
  "par_init m n = \<lparr>shared = fill_init m n, waves = replicate (m + n + 1) wave_start\<rparr>"

text \<open>
  One step of the goroutine of wave \<open>w\<close>, from the point it has reached to the next
  access to the shared memory:
  \<^item> \<open>AtLoop\<close>: the loop test of line 74, \<open>j\<close> and its test (lines 75-78), the match
    score (lines 81-84) and the read of the diagonal cell (line 87); a goroutine whose
    loop test fails has returned;
  \<^item> \<open>ReadUp\<close>, \<open>ReadLeft\<close>: the reads of lines 88 and 89;
  \<^item> \<open>WriteCell\<close>: the assignment of line 92;
  \<^item> \<open>CheckCell\<close>: the test of line 95;
  \<^item> \<open>UpdateMax\<close>: lines 96-101, which the mutex makes one step, and \<open>i++\<close>.
  A wave outside \<open>2 .. m + n\<close> has no goroutine.
\<close>

definition wave_step :: "string \<Rightarrow> string \<Rightarrow> nat \<Rightarrow> par_state \<Rightarrow> par_state" where
  "wave_step query reference w st =
     (if 2 \<le> w \<and> w \<le> length query + length reference then
        (let g = waves st ! w; i = loc_i g; j = w - i; sh = shared st; matrix = cur_matrix sh in
         case loc_pc g of
           AtLoop \<Rightarrow>
             if i \<le> length query \<and> i < w then
               if j < 1 \<or> j > length reference then
                 st\<lparr>waves := (waves st)[w := g\<lparr>loc_i := i + 1\<rparr>]\<rparr>
               else
                 (let match = (if query ! (i - 1) = reference ! (j - 1)
                               then MatchScore else MismatchScore)
                  in st\<lparr>waves := (waves st)
                         [w := g\<lparr>loc_pc := ReadUp,
                                  loc_scoreDiag := matrix ! (i - 1) ! (j - 1) + match\<rparr>]\<rparr>)
             else st
         | ReadUp \<Rightarrow>
             st\<lparr>waves := (waves st)
                  [w := g\<lparr>loc_pc := ReadLeft, loc_scoreUp := matrix ! (i - 1) ! j + GapPenalty\<rparr>]\<rparr>
         | ReadLeft \<Rightarrow>
             st\<lparr>waves := (waves st)
                  [w := g\<lparr>loc_pc := WriteCell, loc_scoreLeft := matrix ! i ! (j - 1) + GapPenalty\<rparr>]\<rparr>
         | WriteCell \<Rightarrow>
             st\<lparr>shared := sh\<lparr>cur_matrix := set_cell matrix i j
                    (smithMax [0, loc_scoreDiag g, loc_scoreUp g, loc_scoreLeft g])\<rparr>,
                waves := (waves st)[w := g\<lparr>loc_pc := CheckCell\<rparr>]\<rparr>
         | CheckCell \<Rightarrow>
             if matrix ! i ! j > 0 then st\<lparr>waves := (waves st)[w := g\<lparr>loc_pc := UpdateMax\<rparr>]\<rparr>
             else st\<lparr>waves := (waves st)[w := g\<lparr>loc_pc := AtLoop, loc_i := i + 1\<rparr>]\<rparr>
         | UpdateMax \<Rightarrow>
             st\<lparr>shared :=
                  (if matrix ! i ! j > cur_maxScore sh
                   then sh\<lparr>cur_maxScore := matrix ! i ! j, cur_maxRow := i, cur_maxCol := j\<rparr>
                   else sh),
                waves := (waves st)[w := g\<lparr>loc_pc := AtLoop, loc_i := i + 1\<rparr>]\<rparr>)
      else st)"

text \<open>
  Nothing orders the goroutines among themselves, so the order in which their steps run
  is an input of the model: \<open>sched\<close> lists the waves whose goroutine runs next, one
  step per entry. \<^verbatim>\<open>wg.Wait()\<close> returns when every goroutine has returned: what the
  schedule leaves unfinished runs after it, wave by wave (\<open>in_order\<close>; no goroutine
  has more than \<open>m\<close> iterations of at most six steps). The empty schedule is the
  execution in which each wave completes before the next one starts.
\<close>

definition in_order :: "nat \<Rightarrow> nat \<Rightarrow> nat list" where
  "in_order m n = concat (map (\<lambda>w. replicate (6 * m) w) [2 ..< m + n + 1])"

definition par_fill :: "string \<Rightarrow> string \<Rightarrow> nat list \<Rightarrow> fill_state" where
  "par_fill query reference sched =
     shared (fold (wave_step query reference)
       (sched @ in_order (length query) (length reference))
       (par_init (length query) (length reference)))"

text \<open>\<^verbatim>\<open>parallelTraceback\<close> (lines 136-172), the same text as \<^verbatim>\<open>traceback\<close>.\<close>

function parallelTraceback_loop ::
  "int list list \<Rightarrow> string \<Rightarrow> string \<Rightarrow> nat \<Rightarrow> nat \<Rightarrow> string \<Rightarrow> string \<Rightarrow> (string \<times> string) option"
where
  "parallelTraceback_loop matrix query reference row col alignedQuery alignedRef =
     (if row > 0 \<and> col > 0 then
        (case cell matrix row col of
           None \<Rightarrow> None
         | Some currentScore \<Rightarrow>
             if currentScore > 0 then
               (case byte_at query (row - 1) of
                  None \<Rightarrow> None
                | Some qc \<Rightarrow>
                   (case byte_at reference (col - 1) of
                      None \<Rightarrow> None
                    | Some rc \<Rightarrow>
                       (let match = (if qc = rc then MatchScore else MismatchScore) in
                        (case cell matrix (row - 1) (col - 1) of
                           None \<Rightarrow> None
                         | Some diag \<Rightarrow>
                            if wrap64 currentScore = wrap64 (diag + match) then
                              parallelTraceback_loop matrix query reference (row - 1) (col - 1)
                                (string_of_byte qc @ alignedQuery) (string_of_byte rc @ alignedRef)
                            else
                              (case cell matrix (row - 1) col of
                                 None \<Rightarrow> None
                               | Some up \<Rightarrow>
                                  if wrap64 currentScore = wrap64 (up + GapPenalty) then
                                    parallelTraceback_loop matrix query reference (row - 1) col
                                      (string_of_byte qc @ alignedQuery) (''-'' @ alignedRef)
                                  else
                                    (case cell matrix row (col - 1) of
                                       None \<Rightarrow> None
                                     | Some left \<Rightarrow>
                                        if wrap64 currentScore = wrap64 (left + GapPenalty) then
                                          parallelTraceback_loop matrix query reference row (col - 1)
                                            (''-'' @ alignedQuery) (string_of_byte rc @ alignedRef)
                                        else Some (alignedQuery, alignedRef)))))))
             else Some (alignedQuery, alignedRef))
      else Some (alignedQuery, alignedRef))"
  by pat_completeness auto
termination
  by (relation "measure (\<lambda>(matrix, query, reference, row, col, aq, ar). row + col)") auto

declare parallelTraceback_loop.simps [simp del]

definition parallelTraceback ::
  "int list list \<Rightarrow> string \<Rightarrow> string \<Rightarrow> nat \<Rightarrow> nat \<Rightarrow> (string \<times> string) option" where
  "parallelTraceback matrix query reference row col =
     parallelTraceback_loop matrix query reference row col [] []"

text \<open>
  \<^verbatim>\<open>ParallelSmithWaterman\<close> (lines 28-121). \<open>gomaxprocs\<close> is what
  \<^verbatim>\<open>runtime.GOMAXPROCS(0)\<close> returns.
\<close>

definition ParallelSmithWaterman ::
  "string \<Rightarrow> string \<Rightarrow> int \<Rightarrow> int \<Rightarrow> nat list \<Rightarrow> ParallelAlignmentResult option" where
  "ParallelSmithWaterman query reference numWorkers gomaxprocs sched =
     (let m = length query; n = length reference;
          numWorkers = (if numWorkers \<le> 0 then gomaxprocs else numWorkers)
      in if m < 50 \<or> n < 50 then
           (case SmithWaterman query reference of
              None \<Rightarrow> None
            | Some result \<Rightarrow>
                Some \<lparr>ScoreMatrix_p = ScoreMatrix result, MaxScore_p = MaxScore result,
                      MaxRow = 0, MaxCol = 0,
                      AlignedQuery_p = AlignedQuery result, AlignedRef_p = AlignedRef result\<rparr>)
         else
           (let st = par_fill query reference sched in
            case parallelTraceback (cur_matrix st) query reference (cur_maxRow st) (cur_maxCol st) of
              None \<Rightarrow> None
            | Some (alignedQuery, alignedRef) \<Rightarrow>
                Some \<lparr>ScoreMatrix_p = cur_matrix st, MaxScore_p = cur_maxScore st,
                      MaxRow = cur_maxRow st, MaxCol = cur_maxCol st,
                      AlignedQuery_p = alignedQuery, AlignedRef_p = alignedRef\<rparr>))"

section \<open>The batch aligner (\<^verbatim>\<open>ConcurrentSmithWatermanBatch\<close>, lines 184-219)\<close>

text \<open>
  The dispatch loop acquires a permit of the semaphore and then starts the goroutine of
  the next reference (lines 201-211); a goroutine aligns the query against its
  reference and writes its own slot of \<open>results\<close> (line 210), then releases its permit
  and returns (lines 206-207). The events of an execution:
  \<^item> \<open>Launch\<close>: one iteration of the dispatch loop, possible while a permit is free;
  \<^item> \<open>Compute k\<close>: the goroutine of index \<open>k\<close> runs line 210;
  \<^item> \<open>Release k\<close>: the goroutine of index \<open>k\<close>, having written its slot, releases its
    permit and returns.
  \<open>running\<close> lists the goroutines that have not run line 210 yet, \<open>written\<close> those that
  have and still hold their permit.
\<close>

datatype batch_event = Launch | Compute nat | Release nat

record batch_state =
  next_index :: nat
  running :: "nat list"
  written :: "nat list"
  results :: "AlignmentResult list"

definition zero_result :: AlignmentResult where
  "zero_result = \<lparr>ScoreMatrix = [], MaxScore = 0, AlignedQuery = [], AlignedRef = []\<rparr>"

definition batch_init :: "nat \<Rightarrow> batch_state" where
  "batch_init n =
     \<lparr>next_index = 0, running = [], written = [], results = replicate n zero_result\<rparr>"

text \<open>An event that cannot happen in the state leaves it as it is; \<open>None\<close> is a panic.\<close>

definition batch_step ::
  "string \<Rightarrow> string list \<Rightarrow> nat \<Rightarrow> batch_event \<Rightarrow> batch_state \<Rightarrow> batch_state option" where
  "batch_step query references permits ev st =
     (case ev of
        Launch \<Rightarrow>
          if next_index st < length references
             \<and> length (running st) + length (written st) < permits then
            Some (st\<lparr>next_index := next_index st + 1, running := running st @ [next_index st]\<rparr>)
          else Some st
      | Compute k \<Rightarrow>
          if k \<in> set (running st) then
            (case SmithWaterman query (references ! k) of
               None \<Rightarrow> None
             | Some r \<Rightarrow>
                 Some (st\<lparr>running := removeAll k (running st), written := written st @ [k],
                          results := (results st)[k := r]\<rparr>))
          else Some st
      | Release k \<Rightarrow>
          if k \<in> set (written st) then Some (st\<lparr>written := removeAll k (written st)\<rparr>)
          else Some st)"

fun batch_run ::
  "string \<Rightarrow> string list \<Rightarrow> nat \<Rightarrow> batch_event list \<Rightarrow> batch_state \<Rightarrow> batch_state option" where
  "batch_run query references permits [] st = Some st"
| "batch_run query references permits (ev # evs) st =
     (case batch_step query references permits ev st of
        None \<Rightarrow> None
      | Some st' \<Rightarrow> batch_run query references permits evs st')"

text \<open>
  After the events of \<open>sched\<close>, the dispatch loop and the goroutines go on, round after
  round (\<open>drain\<close>). \<^verbatim>\<open>wg.Wait()\<close> returns when the loop has started every goroutine and
  all of them have returned; otherwise the call does not return, which is \<open>None\<close> too.
  \<^verbatim>\<open>make\<close> panics on a negative channel capacity.
\<close>

definition drain_round :: "nat \<Rightarrow> batch_event list" where
  "drain_round n = Launch # map Compute [0 ..< n] @ map Release [0 ..< n]"

definition drain :: "nat \<Rightarrow> batch_event list" where
  "drain n = concat (replicate (n + 1) (drain_round n))"

definition ConcurrentSmithWatermanBatch ::
  "string \<Rightarrow> string list \<Rightarrow> int \<Rightarrow> int \<Rightarrow> batch_event list \<Rightarrow> AlignmentResult list option" where
  "ConcurrentSmithWatermanBatch query references numWorkers gomaxprocs sched =
     (let numWorkers = (if numWorkers \<le> 0 then gomaxprocs else numWorkers);
          numWorkers = (if numWorkers > int (length references) then int (length references)
                        else numWorkers)
      in if numWorkers < 0 then None
         else
           (case batch_run query references (nat numWorkers)
                   (sched @ drain (length references)) (batch_init (length references)) of
              None \<Rightarrow> None
            | Some st \<Rightarrow>
                if next_index st = length references \<and> running st = [] \<and> written st = []
                then Some (results st)
                else None))"

section \<open>Auxiliary notions for the proofs\<close>

text \<open>A matrix of \<open>m + 1\<close> rows of \<open>n + 1\<close> cells each, as \<^verbatim>\<open>make\<close> allocates it.\<close>

definition wf_matrix :: "int list list \<Rightarrow> nat \<Rightarrow> nat \<Rightarrow> bool" where
  "wf_matrix matrix m n \<longleftrightarrow> length matrix = m + 1 \<and> (\<forall>row \<in> set matrix. length row = n + 1)"

text \<open>
  What one pass of the traceback loop decides at a cell, read off the loop body: the
  loop ends, an index expression panics, or one of the three moves is taken.
\<close>

datatype tb_move = MStop | MPanic | MDiag char char | MUp char | MLeft char

definition tb_decide :: "int list list \<Rightarrow> string \<Rightarrow> string \<Rightarrow> nat \<Rightarrow> nat \<Rightarrow> tb_move" where
  "tb_decide matrix query reference row col =
     (if row > 0 \<and> col > 0 then
        (case cell matrix row col of
           None \<Rightarrow> MPanic
         | Some currentScore \<Rightarrow>
             if currentScore > 0 then
               (case byte_at query (row - 1) of
                  None \<Rightarrow> MPanic
                | Some qc \<Rightarrow>
                   (case byte_at reference (col - 1) of
                      None \<Rightarrow> MPanic
                    | Some rc \<Rightarrow>
                        (case cell matrix (row - 1) (col - 1) of
                           None \<Rightarrow> MPanic
                         | Some diag \<Rightarrow>
                            if wrap64 currentScore
                                = wrap64 (diag + (if qc = rc then MatchScore else MismatchScore))
                            then MDiag qc rc
                            else
                              (case cell matrix (row - 1) col of
                                 None \<Rightarrow> MPanic
                               | Some up \<Rightarrow>
                                  if wrap64 currentScore = wrap64 (up + GapPenalty) then MUp qc
                                  else
                                    (case cell matrix row (col - 1) of
                                       None \<Rightarrow> MPanic
                                     | Some left \<Rightarrow>
                                        if wrap64 currentScore = wrap64 (left + GapPenalty) then MLeft rc
                                        else MStop)))))
             else MStop)
      else MStop)"

text \<open>The symbols of one step come last in the strings the remaining walk returns.\<close>

definition tb_app :: "string \<Rightarrow> string \<Rightarrow> (string \<times> string) option \<Rightarrow> (string \<times> string) option" where
  "tb_app x y res = map_option (\<lambda>(a, b). (a @ x, b @ y)) res"

text \<open>
  The fill recurrence as the specification writes it (section 4.1):
  \<open>cell(i,j) = max(0, cell(i-1,j-1) + matchScore(query[i-1], reference[j-1]),
  cell(i-1,j) + gapPenalty, cell(i,j-1) + gapPenalty)\<close>, with row 0 and column 0 at 0.
\<close>

fun spec_cell :: "string \<Rightarrow> string \<Rightarrow> nat \<Rightarrow> nat \<Rightarrow> int" where
  "spec_cell query reference 0 j = 0"
| "spec_cell query reference (Suc i) 0 = 0"
| "spec_cell query reference (Suc i) (Suc j) =
     max 0 (max (spec_cell query reference i j
                  + (if query ! i = reference ! j then MatchScore else MismatchScore))
           (max (spec_cell query reference i (Suc j) + GapPenalty)
                (spec_cell query reference (Suc i) j + GapPenalty)))"

text \<open>
  The cells the nested fill loops have assigned when they are about to assign
  \<open>(i, j)\<close>: row-major order over the interior.
\<close>

definition done_before :: "nat \<Rightarrow> nat \<Rightarrow> nat \<Rightarrow> nat \<Rightarrow> bool" where
  "done_before i j a b \<longleftrightarrow> 1 \<le> a \<and> 1 \<le> b \<and> (a < i \<or> (a = i \<and> b < j))"

definition fill_inv ::
  "string \<Rightarrow> string \<Rightarrow> nat \<Rightarrow> nat \<Rightarrow> int list list \<Rightarrow> int \<Rightarrow> nat \<Rightarrow> nat \<Rightarrow> bool" where
  "fill_inv query reference i j M s mr mc \<longleftrightarrow>
     wf_matrix M (length query) (length reference) \<and>
     (\<forall>a \<le> length query. \<forall>b \<le> length reference.
        M ! a ! b = (if done_before i j a b then spec_cell query reference a b else 0)) \<and>
     mr \<le> length query \<and> mc \<le> length reference \<and>
     M ! mr ! mc = s \<and>
     ((mr = 0 \<and> mc = 0) \<or> done_before i j mr mc) \<and>
     (\<forall>a \<le> length query. \<forall>b \<le> length reference. M ! a ! b \<le> s) \<and>
     (\<forall>a \<le> length query. \<forall>b \<le> length reference.
        M ! a ! b = s \<longrightarrow> mr < a \<or> (mr = a \<and> mc \<le> b))"

definition fill_inv_st :: "string \<Rightarrow> string \<Rightarrow> nat \<Rightarrow> nat \<Rightarrow> fill_state \<Rightarrow> bool" where
  "fill_inv_st query reference i j st \<longleftrightarrow>
     fill_inv query reference i j (cur_matrix st) (cur_maxScore st) (cur_maxRow st) (cur_maxCol st)"

text \<open>
  One iteration of the loop of the goroutine of wave \<open>w\<close> run without interruption
  (lines 75-102), and its whole loop (line 74), as functions on the shared variables.
\<close>

definition wave_iteration :: "string \<Rightarrow> string \<Rightarrow> nat \<Rightarrow> nat \<Rightarrow> fill_state \<Rightarrow> fill_state" where
  "wave_iteration query reference w i sh =
     (let j = w - i in
      if j < 1 \<or> j > length reference then sh
      else
        (let v = cell_score (cur_matrix sh) query reference i j;
             sh' = sh\<lparr>cur_matrix := set_cell (cur_matrix sh) i j v\<rparr>
         in if v > 0 then
              (if v > cur_maxScore sh' then sh'\<lparr>cur_maxScore := v, cur_maxRow := i, cur_maxCol := j\<rparr>
               else sh')
            else sh'))"

definition wave_loop :: "string \<Rightarrow> string \<Rightarrow> nat \<Rightarrow> fill_state \<Rightarrow> fill_state" where
  "wave_loop query reference w sh =
     fold (wave_iteration query reference w) [1 ..< min (length query + 1) w] sh"

text \<open>
  What every state of the parallel fill satisfies, whatever the schedule: the shape of
  the matrix, cells that are not negative, row 0 and column 0 at 0, the tracked cell
  inside the matrix, one
  goroutine per wave, and a goroutine inside its loop body at a cell of its wave.
\<close>

definition nonneg_matrix :: "int list list \<Rightarrow> bool" where
  "nonneg_matrix matrix \<longleftrightarrow> (\<forall>row \<in> set matrix. \<forall>v \<in> set row. 0 \<le> v)"

definition shared_ok :: "nat \<Rightarrow> nat \<Rightarrow> fill_state \<Rightarrow> bool" where
  "shared_ok m n sh \<longleftrightarrow>
     wf_matrix (cur_matrix sh) m n \<and> nonneg_matrix (cur_matrix sh) \<and>
     (\<forall>b \<le> n. cur_matrix sh ! 0 ! b = 0) \<and> (\<forall>a \<le> m. cur_matrix sh ! a ! 0 = 0) \<and>
     cur_maxRow sh \<le> m \<and> cur_maxCol sh \<le> n"

definition local_ok :: "nat \<Rightarrow> nat \<Rightarrow> nat \<Rightarrow> wave_local \<Rightarrow> bool" where
  "local_ok m n w g \<longleftrightarrow>
     1 \<le> loc_i g \<and>
     (loc_pc g \<noteq> AtLoop \<longrightarrow>
        loc_i g \<le> m \<and> loc_i g < w \<and> 1 \<le> w - loc_i g \<and> w - loc_i g \<le> n)"

definition par_ok :: "nat \<Rightarrow> nat \<Rightarrow> par_state \<Rightarrow> bool" where
  "par_ok m n st \<longleftrightarrow>
     shared_ok m n (shared st) \<and> length (waves st) = m + n + 1 \<and>
     (\<forall>w < length (waves st). local_ok m n w (waves st ! w))"

text \<open>
  What every state of the batch aligner satisfies: the goroutines that hold a permit
  have been started, and the slot of every goroutine that has run line 210 holds the
  alignment of the query against its reference.
\<close>

definition batch_inv :: "string \<Rightarrow> string list \<Rightarrow> batch_state \<Rightarrow> bool" where
  "batch_inv query references st \<longleftrightarrow>
     next_index st \<le> length references \<and> length (results st) = length references \<and>
     set (running st) \<subseteq> {..< next_index st} \<and> set (written st) \<subseteq> {..< next_index st} \<and>
     (\<forall>k < next_index st. k \<notin> set (running st) \<longrightarrow>
        SmithWaterman query (references ! k) = Some (results st ! k))"




section \<open>Matrices and the cell formula\<close>

lemma smithMax4: "smithMax [0, a, b, c] = max 0 (max a (max b c))"
  by (simp add: max_def)

lemma cell_score_nonneg: "0 \<le> cell_score matrix query reference i j"
  by (simp add: cell_score_def Let_def smithMax4)

lemma wf_new_matrix: "wf_matrix (new_matrix m n) m n"
  by (simp add: wf_matrix_def new_matrix_def)

lemma wf_set_cell: "wf_matrix matrix m n \<Longrightarrow> wf_matrix (set_cell matrix i j v) m n"
proof (cases "i < length matrix")
  case True
  then have "matrix ! i \<in> set matrix" by simp
  moreover assume "wf_matrix matrix m n"
  ultimately show ?thesis
    unfolding wf_matrix_def set_cell_def
    by (auto dest!: set_update_subset_insert [THEN subsetD])
next
  case False
  moreover assume "wf_matrix matrix m n"
  ultimately show ?thesis by (simp add: set_cell_def list_update_beyond)
qed

lemma wf_cell:
  "wf_matrix matrix m n \<Longrightarrow> i \<le> m \<Longrightarrow> j \<le> n \<Longrightarrow> cell matrix i j = Some (matrix ! i ! j)"
  by (simp add: wf_matrix_def cell_def)

lemma set_cell_nth:
  "wf_matrix matrix m n \<Longrightarrow> a \<le> m \<Longrightarrow> b \<le> n \<Longrightarrow>
   set_cell matrix i j v ! a ! b = (if a = i \<and> b = j then v else matrix ! a ! b)"
  by (cases "a = i") (auto simp: wf_matrix_def set_cell_def nth_list_update)

section \<open>The traceback loop, one step at a time\<close>

lemma traceback_loop_decide:
  "traceback_loop matrix query reference row col aq ar =
     (case tb_decide matrix query reference row col of
        MPanic \<Rightarrow> None
      | MStop \<Rightarrow> Some (aq, ar)
      | MDiag qc rc \<Rightarrow>
          traceback_loop matrix query reference (row - 1) (col - 1)
            (string_of_byte qc @ aq) (string_of_byte rc @ ar)
      | MUp qc \<Rightarrow>
          traceback_loop matrix query reference (row - 1) col (string_of_byte qc @ aq) (''-'' @ ar)
      | MLeft rc \<Rightarrow>
          traceback_loop matrix query reference row (col - 1) (''-'' @ aq) (string_of_byte rc @ ar))"
  apply (subst traceback_loop.simps)
  apply (simp add: tb_decide_def Let_def split: option.split)
  done

lemma tb_decide_dec:
  "tb_decide matrix query reference row col = MDiag qc rc \<Longrightarrow> row > 0 \<and> col > 0"
  "tb_decide matrix query reference row col = MUp qc \<Longrightarrow> row > 0 \<and> col > 0"
  "tb_decide matrix query reference row col = MLeft rc \<Longrightarrow> row > 0 \<and> col > 0"
  by (auto simp: tb_decide_def split: if_splits)

lemma tb_app_app: "tb_app x y (tb_app x' y' res) = tb_app (x' @ x) (y' @ y) res"
  by (cases res) (auto simp: tb_app_def)

lemma traceback_loop_acc:
  "traceback_loop matrix query reference row col aq ar =
     tb_app aq ar (traceback_loop matrix query reference row col [] [])"
proof (induction "row + col" arbitrary: row col aq ar rule: less_induct)
  case less
  show ?case
  proof (cases "tb_decide matrix query reference row col")
    case MStop
    then show ?thesis by (simp add: traceback_loop_decide tb_app_def)
  next
    case MPanic
    then show ?thesis by (simp add: traceback_loop_decide tb_app_def)
  next
    case (MDiag qc rc)
    then have lt: "(row - 1) + (col - 1) < row + col"
      using tb_decide_dec(1) by fastforce
    show ?thesis
      using less [OF lt, of "string_of_byte qc @ aq" "string_of_byte rc @ ar"]
        less [OF lt, of "string_of_byte qc" "string_of_byte rc"] MDiag
      by (simp add: traceback_loop_decide [of _ _ _ row col] tb_app_app)
  next
    case (MUp qc)
    then have lt: "(row - 1) + col < row + col"
      using tb_decide_dec(2) by fastforce
    show ?thesis
      using less [OF lt, of "string_of_byte qc @ aq" "''-'' @ ar"]
        less [OF lt, of "string_of_byte qc" "''-''"] MUp
      by (simp add: traceback_loop_decide [of _ _ _ row col] tb_app_app)
  next
    case (MLeft rc)
    then have lt: "row + (col - 1) < row + col"
      using tb_decide_dec(3) by fastforce
    show ?thesis
      using less [OF lt, of "''-'' @ aq" "string_of_byte rc @ ar"]
        less [OF lt, of "''-''" "string_of_byte rc"] MLeft
      by (simp add: traceback_loop_decide [of _ _ _ row col] tb_app_app)
  qed
qed

lemma traceback_unfold:
  "traceback matrix query reference row col =
     (case tb_decide matrix query reference row col of
        MPanic \<Rightarrow> None
      | MStop \<Rightarrow> Some ([], [])
      | MDiag qc rc \<Rightarrow>
          tb_app (string_of_byte qc) (string_of_byte rc)
            (traceback matrix query reference (row - 1) (col - 1))
      | MUp qc \<Rightarrow> tb_app (string_of_byte qc) ''-'' (traceback matrix query reference (row - 1) col)
      | MLeft rc \<Rightarrow> tb_app ''-'' (string_of_byte rc) (traceback matrix query reference row (col - 1)))"
  unfolding traceback_def
  apply (subst traceback_loop_decide)
  apply (cases "tb_decide matrix query reference row col")
      apply simp_all
    apply (subst traceback_loop_acc, simp)+
  done

lemma parallelTraceback_loop_decide:
  "parallelTraceback_loop matrix query reference row col aq ar =
     (case tb_decide matrix query reference row col of
        MPanic \<Rightarrow> None
      | MStop \<Rightarrow> Some (aq, ar)
      | MDiag qc rc \<Rightarrow>
          parallelTraceback_loop matrix query reference (row - 1) (col - 1)
            (string_of_byte qc @ aq) (string_of_byte rc @ ar)
      | MUp qc \<Rightarrow>
          parallelTraceback_loop matrix query reference (row - 1) col
            (string_of_byte qc @ aq) (''-'' @ ar)
      | MLeft rc \<Rightarrow>
          parallelTraceback_loop matrix query reference row (col - 1)
            (''-'' @ aq) (string_of_byte rc @ ar))"
  apply (subst parallelTraceback_loop.simps)
  apply (simp add: tb_decide_def Let_def split: option.split)
  done

lemma parallelTraceback_loop_eq:
  "parallelTraceback_loop matrix query reference row col aq ar =
   traceback_loop matrix query reference row col aq ar"
proof (induction "row + col" arbitrary: row col aq ar rule: less_induct)
  case less
  show ?case
  proof (cases "tb_decide matrix query reference row col")
    case MStop
    then show ?thesis by (simp add: traceback_loop_decide parallelTraceback_loop_decide)
  next
    case MPanic
    then show ?thesis by (simp add: traceback_loop_decide parallelTraceback_loop_decide)
  next
    case (MDiag qc rc)
    then have lt: "(row - 1) + (col - 1) < row + col"
      using tb_decide_dec(1) by fastforce
    show ?thesis
      using less [OF lt] MDiag
      by (simp add: traceback_loop_decide [of _ _ _ row col]
          parallelTraceback_loop_decide [of _ _ _ row col])
  next
    case (MUp qc)
    then have lt: "(row - 1) + col < row + col"
      using tb_decide_dec(2) by fastforce
    show ?thesis
      using less [OF lt] MUp
      by (simp add: traceback_loop_decide [of _ _ _ row col]
          parallelTraceback_loop_decide [of _ _ _ row col])
  next
    case (MLeft rc)
    then have lt: "row + (col - 1) < row + col"
      using tb_decide_dec(3) by fastforce
    show ?thesis
      using less [OF lt] MLeft
      by (simp add: traceback_loop_decide [of _ _ _ row col]
          parallelTraceback_loop_decide [of _ _ _ row col])
  qed
qed

lemma parallelTraceback_eq:
  "parallelTraceback matrix query reference row col = traceback matrix query reference row col"
  by (simp add: parallelTraceback_def traceback_def parallelTraceback_loop_eq)

lemma tb_decide_no_panic:
  assumes "wf_matrix matrix m n" "row \<le> m" "col \<le> n" "m \<le> length query" "n \<le> length reference"
  shows "tb_decide matrix query reference row col \<noteq> MPanic"
proof (cases "row > 0 \<and> col > 0")
  case True
  have c: "cell matrix row col = Some (matrix ! row ! col)"
    "cell matrix (row - 1) (col - 1) = Some (matrix ! (row - 1) ! (col - 1))"
    "cell matrix (row - 1) col = Some (matrix ! (row - 1) ! col)"
    "cell matrix row (col - 1) = Some (matrix ! row ! (col - 1))"
    using assms by (simp_all add: wf_cell [OF assms(1)])
  have b: "byte_at query (row - 1) = Some (query ! (row - 1))"
    "byte_at reference (col - 1) = Some (reference ! (col - 1))"
    using assms True by (auto simp: byte_at_def)
  show ?thesis
    unfolding tb_decide_def c b by simp
next
  case False
  then show ?thesis by (auto simp: tb_decide_def)
qed

lemma traceback_returns:
  assumes "wf_matrix matrix m n" "m \<le> length query" "n \<le> length reference"
  shows "row \<le> m \<Longrightarrow> col \<le> n \<Longrightarrow> \<exists>aq ar. traceback matrix query reference row col = Some (aq, ar)"
proof (induction "row + col" arbitrary: row col rule: less_induct)
  case less
  note np = tb_decide_no_panic [OF assms(1) less.prems assms(2,3)]
  show ?case
  proof (cases "tb_decide matrix query reference row col")
    case MStop
    then show ?thesis by (simp add: traceback_unfold)
  next
    case MPanic
    with np show ?thesis by simp
  next
    case (MDiag qc rc)
    then have "row > 0 \<and> col > 0" by (rule tb_decide_dec)
    then have "\<exists>aq ar. traceback matrix query reference (row - 1) (col - 1) = Some (aq, ar)"
      using less.prems by (intro less.hyps) auto
    with MDiag show ?thesis
      by (auto simp: traceback_unfold [of _ _ _ row col] tb_app_def)
  next
    case (MUp qc)
    then have "row > 0 \<and> col > 0" by (rule tb_decide_dec)
    then have "\<exists>aq ar. traceback matrix query reference (row - 1) col = Some (aq, ar)"
      using less.prems by (intro less.hyps) auto
    with MUp show ?thesis
      by (auto simp: traceback_unfold [of _ _ _ row col] tb_app_def)
  next
    case (MLeft rc)
    then have "row > 0 \<and> col > 0" by (rule tb_decide_dec)
    then have "\<exists>aq ar. traceback matrix query reference row (col - 1) = Some (aq, ar)"
      using less.prems by (intro less.hyps) auto
    with MLeft show ?thesis
      by (auto simp: traceback_unfold [of _ _ _ row col] tb_app_def)
  qed
qed

lemma string_of_byte_nonempty: "string_of_byte c \<noteq> []"
  by (simp add: string_of_byte_def Let_def)

lemma tb_app_not_empty:
  "x \<noteq> [] \<or> y \<noteq> [] \<Longrightarrow> tb_app x y res \<noteq> Some ([], [])"
  by (cases res) (auto simp: tb_app_def)

lemma spec_cell_boundary: "a = 0 \<or> b = 0 \<Longrightarrow> spec_cell query reference a b = 0"
  by (cases a; cases b) auto

lemma spec_cell_interior:
  "1 \<le> a \<Longrightarrow> 1 \<le> b \<Longrightarrow>
   spec_cell query reference a b =
     max 0 (max (spec_cell query reference (a - 1) (b - 1)
                  + (if query ! (a - 1) = reference ! (b - 1) then MatchScore else MismatchScore))
           (max (spec_cell query reference (a - 1) b + GapPenalty)
                (spec_cell query reference a (b - 1) + GapPenalty)))"
  by (cases a; cases b) auto

lemma spec_cell_nonneg: "0 \<le> spec_cell query reference a b"
  by (cases a; cases b) auto

lemma new_matrix_nth: "a \<le> m \<Longrightarrow> b \<le> n \<Longrightarrow> new_matrix m n ! a ! b = 0"
proof -
  assume a: "a \<le> m" and b: "b \<le> n"
  have "new_matrix m n ! a = replicate (n + 1) 0"
    unfolding new_matrix_def using a by (intro nth_replicate) simp
  moreover have "replicate (n + 1) (0::int) ! b = 0"
    using b by (intro nth_replicate) simp
  ultimately show ?thesis by simp
qed

lemma fill_invI:
  assumes "wf_matrix M (length query) (length reference)"
    and "\<And>a b. a \<le> length query \<Longrightarrow> b \<le> length reference \<Longrightarrow>
        M ! a ! b = (if done_before i j a b then spec_cell query reference a b else 0)"
    and "mr \<le> length query" and "mc \<le> length reference"
    and "M ! mr ! mc = s"
    and "(mr = 0 \<and> mc = 0) \<or> done_before i j mr mc"
    and "\<And>a b. a \<le> length query \<Longrightarrow> b \<le> length reference \<Longrightarrow> M ! a ! b \<le> s"
    and "\<And>a b. a \<le> length query \<Longrightarrow> b \<le> length reference \<Longrightarrow> M ! a ! b = s \<Longrightarrow>
        mr < a \<or> (mr = a \<and> mc \<le> b)"
  shows "fill_inv query reference i j M s mr mc"
  unfolding fill_inv_def using assms by blast

lemma fill_invD:
  assumes "fill_inv query reference i j M s mr mc"
  shows "wf_matrix M (length query) (length reference)"
    and "\<And>a b. a \<le> length query \<Longrightarrow> b \<le> length reference \<Longrightarrow>
        M ! a ! b = (if done_before i j a b then spec_cell query reference a b else 0)"
    and "mr \<le> length query" and "mc \<le> length reference"
    and "M ! mr ! mc = s"
    and "(mr = 0 \<and> mc = 0) \<or> done_before i j mr mc"
    and "\<And>a b. a \<le> length query \<Longrightarrow> b \<le> length reference \<Longrightarrow> M ! a ! b \<le> s"
    and "\<And>a b. a \<le> length query \<Longrightarrow> b \<le> length reference \<Longrightarrow> M ! a ! b = s \<Longrightarrow>
        mr < a \<or> (mr = a \<and> mc \<le> b)"
  using assms unfolding fill_inv_def by blast+

lemma fill_inv_init:
  "fill_inv_st query reference 1 1 (fill_init (length query) (length reference))"
  unfolding fill_inv_st_def fill_init_def fill_state.simps
proof (rule fill_invI)
  show "wf_matrix (new_matrix (length query) (length reference)) (length query) (length reference)"
    by (rule wf_new_matrix)
qed (auto simp: new_matrix_nth done_before_def)

lemma fill_inv_cell_score:
  assumes inv: "fill_inv query reference i j M s mr mc"
    and i: "1 \<le> i" "i \<le> length query" and j: "1 \<le> j" "j \<le> length reference"
  shows "cell_score M query reference i j = spec_cell query reference i j"
proof -
  note content = fill_invD(2) [OF inv]
  have d: "M ! (i - 1) ! (j - 1) = spec_cell query reference (i - 1) (j - 1)"
    using content [of "i - 1" "j - 1"] i j
    by (auto simp: done_before_def spec_cell_boundary)
  have u: "M ! (i - 1) ! j = spec_cell query reference (i - 1) j"
    using content [of "i - 1" j] i j
    by (auto simp: done_before_def spec_cell_boundary)
  have l: "M ! i ! (j - 1) = spec_cell query reference i (j - 1)"
    using content [of i "j - 1"] i j
    by (auto simp: done_before_def spec_cell_boundary)
  have "cell_score M query reference i j =
      max 0 (max (M ! (i - 1) ! (j - 1)
                   + (if query ! (i - 1) = reference ! (j - 1) then MatchScore else MismatchScore))
            (max (M ! (i - 1) ! j + GapPenalty) (M ! i ! (j - 1) + GapPenalty)))"
    by (simp only: cell_score_def Let_def smithMax4)
  also have "\<dots> = spec_cell query reference i j"
    by (simp only: d u l spec_cell_interior [OF i(1) j(1), symmetric])
  finally show ?thesis .
qed

lemma fill_cell_inv:
  assumes inv: "fill_inv_st query reference i j st"
    and i: "1 \<le> i" "i \<le> length query" and j: "1 \<le> j" "j \<le> length reference"
  shows "fill_inv_st query reference i (Suc j) (fill_cell query reference i j st)"
proof -
  let ?M = "cur_matrix st"
  let ?v = "cell_score ?M query reference i j"
  let ?M' = "set_cell ?M i j ?v"
  let ?m = "length query" and ?n = "length reference"
  have inv': "fill_inv query reference i j ?M (cur_maxScore st) (cur_maxRow st) (cur_maxCol st)"
    using inv by (simp add: fill_inv_st_def)
  note wf = fill_invD(1) [OF inv'] and content = fill_invD(2) [OF inv']
    and mx = fill_invD(3-6) [OF inv'] and le = fill_invD(7) [OF inv']
    and first = fill_invD(8) [OF inv']
  have v: "?v = spec_cell query reference i j"
    using fill_inv_cell_score [OF inv' i j] .
  have v0: "0 \<le> ?v" by (rule cell_score_nonneg)
  have wf': "wf_matrix ?M' ?m ?n" using wf by (rule wf_set_cell)
  have M': "?M' ! a ! b = (if a = i \<and> b = j then ?v else ?M ! a ! b)"
    if "a \<le> ?m" "b \<le> ?n" for a b
    using set_cell_nth [OF wf that] .
  have content': "?M' ! a ! b = (if done_before i (Suc j) a b then spec_cell query reference a b else 0)"
    if "a \<le> ?m" "b \<le> ?n" for a b
  proof (cases "a = i \<and> b = j")
    case True
    then show ?thesis using i(1) j(1) M' [OF that] v by (simp add: done_before_def)
  next
    case False
    then have "done_before i (Suc j) a b = done_before i j a b"
      by (auto simp: done_before_def)
    with False show ?thesis using content [OF that] M' [OF that] by auto
  qed
  have not_cur: "\<not> (cur_maxRow st = i \<and> cur_maxCol st = j)"
    using mx(4) i(1) by (auto simp: done_before_def)
  have before: "cur_maxRow st < i \<or> (cur_maxRow st = i \<and> cur_maxCol st \<le> j)"
    using mx(4) i(1) by (auto simp: done_before_def)
  have done': "(cur_maxRow st = 0 \<and> cur_maxCol st = 0) \<or>
      done_before i (Suc j) (cur_maxRow st) (cur_maxCol st)"
    using mx(4) by (auto simp: done_before_def)
  show ?thesis
  proof (cases "?v > cur_maxScore st")
    case True
    have "fill_inv query reference i (Suc j) ?M' ?v i j"
    proof (rule fill_invI)
      show "wf_matrix ?M' ?m ?n" by (rule wf')
      show "?M' ! a ! b = (if done_before i (Suc j) a b then spec_cell query reference a b else 0)"
        if "a \<le> ?m" "b \<le> ?n" for a b using content' [OF that] .
      show "i \<le> ?m" "j \<le> ?n" using i j by auto
      show "?M' ! i ! j = ?v" using i j by (simp add: M')
      show "i = 0 \<and> j = 0 \<or> done_before i (Suc j) i j"
        using i(1) j(1) by (simp add: done_before_def)
      show "?M' ! a ! b \<le> ?v" if "a \<le> ?m" "b \<le> ?n" for a b
        using le [OF that] True M' [OF that] by auto
      show "i < a \<or> i = a \<and> j \<le> b" if "a \<le> ?m" "b \<le> ?n" "?M' ! a ! b = ?v" for a b
        using le [OF that(1,2)] True that(3) M' [OF that(1,2)] by (auto split: if_splits)
    qed
    with True show ?thesis
      by (simp add: fill_inv_st_def fill_cell_def Let_def)
  next
    case False
    have "fill_inv query reference i (Suc j) ?M' (cur_maxScore st) (cur_maxRow st) (cur_maxCol st)"
    proof (rule fill_invI)
      show "wf_matrix ?M' ?m ?n" by (rule wf')
      show "?M' ! a ! b = (if done_before i (Suc j) a b then spec_cell query reference a b else 0)"
        if "a \<le> ?m" "b \<le> ?n" for a b using content' [OF that] .
      show "cur_maxRow st \<le> ?m" "cur_maxCol st \<le> ?n" using mx by auto
      show "?M' ! cur_maxRow st ! cur_maxCol st = cur_maxScore st"
        using mx not_cur M' [OF mx(1,2)] by auto
      show "cur_maxRow st = 0 \<and> cur_maxCol st = 0 \<or>
          done_before i (Suc j) (cur_maxRow st) (cur_maxCol st)"
        by (rule done')
      show "?M' ! a ! b \<le> cur_maxScore st" if "a \<le> ?m" "b \<le> ?n" for a b
        using le [OF that] False M' [OF that] by auto
      show "cur_maxRow st < a \<or> cur_maxRow st = a \<and> cur_maxCol st \<le> b"
        if "a \<le> ?m" "b \<le> ?n" "?M' ! a ! b = cur_maxScore st" for a b
        using first [OF that(1,2)] before that(3) M' [OF that(1,2)] by (auto split: if_splits)
    qed
    with False show ?thesis
      by (simp add: fill_inv_st_def fill_cell_def Let_def)
  qed
qed


lemma fill_row_prefix:
  assumes inv: "fill_inv_st query reference i 1 st"
    and i: "1 \<le> i" "i \<le> length query"
  shows "k \<le> length reference \<Longrightarrow>
    fill_inv_st query reference i (Suc k) (fold (fill_cell query reference i) [1 ..< Suc k] st)"
proof (induction k)
  case 0
  then show ?case using inv by simp
next
  case (Suc k)
  then have "fill_inv_st query reference i (Suc k)
      (fold (fill_cell query reference i) [1 ..< Suc k] st)"
    by simp
  then have "fill_inv_st query reference i (Suc (Suc k))
      (fill_cell query reference i (Suc k) (fold (fill_cell query reference i) [1 ..< Suc k] st))"
    using i Suc.prems by (intro fill_cell_inv) auto
  then show ?case by simp
qed

lemma fill_inv_next_row:
  assumes inv: "fill_inv query reference i (Suc (length reference)) M s mr mc"
  shows "fill_inv query reference (Suc i) 1 M s mr mc"
proof -
  have eq: "done_before (Suc i) 1 a b = done_before i (Suc (length reference)) a b"
    if "b \<le> length reference" for a b
    using that by (auto simp: done_before_def)
  show ?thesis
  proof (rule fill_invI)
    show "M ! a ! b = (if done_before (Suc i) 1 a b then spec_cell query reference a b else 0)"
      if "a \<le> length query" "b \<le> length reference" for a b
      using fill_invD(2) [OF inv that] eq [OF that(2)] by simp
    show "mr = 0 \<and> mc = 0 \<or> done_before (Suc i) 1 mr mc"
      using fill_invD(6) [OF inv] eq [OF fill_invD(4) [OF inv]] by simp
  qed (use fill_invD [OF inv] in blast)+
qed

lemma fill_row_inv:
  assumes inv: "fill_inv_st query reference i 1 st"
    and i: "1 \<le> i" "i \<le> length query"
  shows "fill_inv_st query reference (Suc i) 1 (fill_row query reference i st)"
proof -
  have "fill_row query reference i st =
      fold (fill_cell query reference i) [1 ..< Suc (length reference)] st"
    by (simp add: fill_row_def)
  then have "fill_inv_st query reference i (Suc (length reference)) (fill_row query reference i st)"
    using fill_row_prefix [OF inv i, of "length reference"] by simp
  then show ?thesis
    unfolding fill_inv_st_def by (rule fill_inv_next_row)
qed

lemma fill_prefix:
  "k \<le> length query \<Longrightarrow>
   fill_inv_st query reference (Suc k) 1
     (fold (fill_row query reference) [1 ..< Suc k] (fill_init (length query) (length reference)))"
proof (induction k)
  case 0
  then show ?case using fill_inv_init [of query reference] by simp
next
  case (Suc k)
  then have "fill_inv_st query reference (Suc k) 1
     (fold (fill_row query reference) [1 ..< Suc k] (fill_init (length query) (length reference)))"
    by simp
  then have "fill_inv_st query reference (Suc (Suc k)) 1
     (fill_row query reference (Suc k)
       (fold (fill_row query reference) [1 ..< Suc k]
         (fill_init (length query) (length reference))))"
    using Suc.prems by (intro fill_row_inv) auto
  then show ?case by simp
qed

lemma fill_inv_final:
  "fill_inv query reference (Suc (length query)) 1
     (cur_matrix (fill query reference)) (cur_maxScore (fill query reference))
     (cur_maxRow (fill query reference)) (cur_maxCol (fill query reference))"
proof -
  have "fill query reference =
      fold (fill_row query reference) [1 ..< Suc (length query)]
        (fill_init (length query) (length reference))"
    by (simp add: fill_def)
  then have "fill_inv_st query reference (Suc (length query)) 1 (fill query reference)"
    using fill_prefix [of "length query" query reference] by simp
  then show ?thesis by (simp add: fill_inv_st_def)
qed

lemma fill_wf: "wf_matrix (cur_matrix (fill query reference)) (length query) (length reference)"
  by (rule fill_invD(1) [OF fill_inv_final])

lemma fill_matrix:
  assumes "a \<le> length query" "b \<le> length reference"
  shows "cur_matrix (fill query reference) ! a ! b = spec_cell query reference a b"
proof (cases "1 \<le> a \<and> 1 \<le> b")
  case True
  then have "done_before (Suc (length query)) 1 a b"
    using assms by (auto simp: done_before_def)
  then show ?thesis using fill_invD(2) [OF fill_inv_final assms] by simp
next
  case False
  then have "\<not> done_before (Suc (length query)) 1 a b" "a = 0 \<or> b = 0"
    by (auto simp: done_before_def)
  then show ?thesis
    using fill_invD(2) [OF fill_inv_final assms] by (simp add: spec_cell_boundary)
qed

lemma fill_max_in_range:
  "cur_maxRow (fill query reference) \<le> length query"
  "cur_maxCol (fill query reference) \<le> length reference"
  by (rule fill_invD(3,4) [OF fill_inv_final])+

lemma SmithWaterman_returns:
  "\<exists>aq ar.
     traceback (cur_matrix (fill query reference)) query reference
       (cur_maxRow (fill query reference)) (cur_maxCol (fill query reference)) = Some (aq, ar) \<and>
     SmithWaterman query reference =
       Some \<lparr>ScoreMatrix = cur_matrix (fill query reference),
             MaxScore = cur_maxScore (fill query reference),
             AlignedQuery = aq, AlignedRef = ar\<rparr>"
proof -
  obtain aq ar where
    "traceback (cur_matrix (fill query reference)) query reference
       (cur_maxRow (fill query reference)) (cur_maxCol (fill query reference)) = Some (aq, ar)"
    using traceback_returns [OF fill_wf le_refl le_refl fill_max_in_range] by blast
  then show ?thesis by (simp add: SmithWaterman_def Let_def)
qed

lemma wrap64_id: "- (2 ^ 63) \<le> x \<Longrightarrow> x < 2 ^ 63 \<Longrightarrow> wrap64 x = x"
  by (simp add: wrap64_def)

lemma traceback_step:
  assumes "wf_matrix matrix m n" "row \<le> m" "col \<le> n" "m \<le> length query" "n \<le> length reference"
  defines "cur \<equiv> matrix ! row ! col"
    and "qc \<equiv> query ! (row - 1)" and "rc \<equiv> reference ! (col - 1)"
  defines "match \<equiv> (if qc = rc then MatchScore else MismatchScore)"
  defines "diag \<equiv> wrap64 (matrix ! (row - 1) ! (col - 1) + match)"
    and "up \<equiv> wrap64 (matrix ! (row - 1) ! col + GapPenalty)"
    and "left \<equiv> wrap64 (matrix ! row ! (col - 1) + GapPenalty)"
  shows "traceback matrix query reference row col =
           (if row = 0 \<or> col = 0 \<or> cur \<le> 0 then Some ([], [])
            else if wrap64 cur = diag then
              tb_app (string_of_byte qc) (string_of_byte rc)
                (traceback matrix query reference (row - 1) (col - 1))
            else if wrap64 cur = up then
              tb_app (string_of_byte qc) ''-'' (traceback matrix query reference (row - 1) col)
            else if wrap64 cur = left then
              tb_app ''-'' (string_of_byte rc) (traceback matrix query reference row (col - 1))
            else Some ([], []))
         \<and> (traceback matrix query reference row col = Some ([], []) \<longleftrightarrow>
              row = 0 \<or> col = 0 \<or> cur \<le> 0 \<or>
              (wrap64 cur \<noteq> diag \<and> wrap64 cur \<noteq> up \<and> wrap64 cur \<noteq> left))
         \<and> parallelTraceback matrix query reference row col =
              traceback matrix query reference row col"
proof -
  have dec: "tb_decide matrix query reference row col =
      (if row = 0 \<or> col = 0 \<or> cur \<le> 0 then MStop
       else if wrap64 cur = diag then MDiag qc rc
       else if wrap64 cur = up then MUp qc
       else if wrap64 cur = left then MLeft rc
       else MStop)"
  proof (cases "row > 0 \<and> col > 0")
    case True
    have c: "cell matrix row col = Some (matrix ! row ! col)"
      "cell matrix (row - 1) (col - 1) = Some (matrix ! (row - 1) ! (col - 1))"
      "cell matrix (row - 1) col = Some (matrix ! (row - 1) ! col)"
      "cell matrix row (col - 1) = Some (matrix ! row ! (col - 1))"
      using assms(1-5) by (simp_all add: wf_cell [OF assms(1)])
    have b: "byte_at query (row - 1) = Some (query ! (row - 1))"
      "byte_at reference (col - 1) = Some (reference ! (col - 1))"
      using assms(1-5) True by (auto simp: byte_at_def)
    show ?thesis
      unfolding tb_decide_def c b using True
      by (simp add: cur_def qc_def rc_def match_def diag_def up_def left_def)
  next
    case False
    then show ?thesis by (auto simp: tb_decide_def)
  qed
  have eq: "traceback matrix query reference row col =
           (if row = 0 \<or> col = 0 \<or> cur \<le> 0 then Some ([], [])
            else if wrap64 cur = diag then
              tb_app (string_of_byte qc) (string_of_byte rc)
                (traceback matrix query reference (row - 1) (col - 1))
            else if wrap64 cur = up then
              tb_app (string_of_byte qc) ''-'' (traceback matrix query reference (row - 1) col)
            else if wrap64 cur = left then
              tb_app ''-'' (string_of_byte rc) (traceback matrix query reference row (col - 1))
            else Some ([], []))"
    by (subst traceback_unfold) (simp add: dec)
  have stop: "traceback matrix query reference row col = Some ([], []) \<longleftrightarrow>
           row = 0 \<or> col = 0 \<or> cur \<le> 0 \<or>
           (wrap64 cur \<noteq> diag \<and> wrap64 cur \<noteq> up \<and> wrap64 cur \<noteq> left)"
    unfolding eq by (simp add: tb_app_not_empty string_of_byte_nonempty)
  from eq stop parallelTraceback_eq show ?thesis by blast
qed

lemma max4_cases:
  "(x::int) = max 0 (max d (max u l)) \<Longrightarrow> 0 < x \<Longrightarrow> x = d \<or> x = u \<or> x = l"
  by linarith

lemma fill_nonneg:
  assumes "row \<in> set (cur_matrix (fill query reference))" "v \<in> set row"
  shows "0 \<le> v"
proof -
  let ?M = "cur_matrix (fill query reference)"
  note wf = fill_wf [of query reference]
  from assms(1) obtain a where a: "a < length ?M" "row = ?M ! a"
    by (auto simp: in_set_conv_nth)
  from assms(2) obtain b where b: "b < length row" "v = row ! b"
    by (auto simp: in_set_conv_nth)
  have "a \<le> length query" using a wf by (simp add: wf_matrix_def)
  moreover have "b \<le> length reference" using b assms(1) wf by (auto simp: wf_matrix_def)
  ultimately have "v = spec_cell query reference a b"
    using fill_matrix a b by simp
  then show ?thesis by (simp add: spec_cell_nonneg)
qed

lemma fill_recurrence:
  assumes "1 \<le> row" "row \<le> length query" "1 \<le> col" "col \<le> length reference"
  shows "cur_matrix (fill query reference) ! row ! col =
     max 0 (max (cur_matrix (fill query reference) ! (row - 1) ! (col - 1)
                  + (if query ! (row - 1) = reference ! (col - 1) then MatchScore else MismatchScore))
           (max (cur_matrix (fill query reference) ! (row - 1) ! col + GapPenalty)
                (cur_matrix (fill query reference) ! row ! (col - 1) + GapPenalty)))"
proof -
  have "cur_matrix (fill query reference) ! row ! col = spec_cell query reference row col"
    "cur_matrix (fill query reference) ! (row - 1) ! (col - 1)
       = spec_cell query reference (row - 1) (col - 1)"
    "cur_matrix (fill query reference) ! (row - 1) ! col = spec_cell query reference (row - 1) col"
    "cur_matrix (fill query reference) ! row ! (col - 1) = spec_cell query reference row (col - 1)"
    using assms by (simp_all add: fill_matrix)
  then show ?thesis
    by (simp only: spec_cell_interior [OF assms(1,3), symmetric])
qed

section \<open>The parallel fill under any schedule\<close>

lemma nonneg_new_matrix: "nonneg_matrix (new_matrix m n)"
  by (auto simp: nonneg_matrix_def new_matrix_def)

lemma nonneg_set_cell:
  assumes "nonneg_matrix matrix" "0 \<le> v"
  shows "nonneg_matrix (set_cell matrix i j v)"
proof (cases "i < length matrix")
  case True
  then have row: "matrix ! i \<in> set matrix" by simp
  have "0 \<le> x" if "x \<in> set ((matrix ! i)[j := v])" for x
    using that assms row set_update_subset_insert [of "matrix ! i" j v]
    by (auto simp: nonneg_matrix_def)
  then show ?thesis
    using assms(1) set_update_subset_insert [of matrix i "(matrix ! i)[j := v]"]
    unfolding nonneg_matrix_def set_cell_def by blast
next
  case False
  then show ?thesis using assms(1) by (simp add: set_cell_def list_update_beyond)
qed

lemma nonneg_nth:
  "nonneg_matrix matrix \<Longrightarrow> wf_matrix matrix m n \<Longrightarrow> a \<le> m \<Longrightarrow> b \<le> n \<Longrightarrow> 0 \<le> matrix ! a ! b"
proof -
  assume nn: "nonneg_matrix matrix" and wf: "wf_matrix matrix m n" and ab: "a \<le> m" "b \<le> n"
  have "matrix ! a \<in> set matrix" using wf ab by (simp add: wf_matrix_def)
  moreover from this have "matrix ! a ! b \<in> set (matrix ! a)"
    using wf ab by (simp add: wf_matrix_def)
  ultimately show ?thesis using nn unfolding nonneg_matrix_def by blast
qed

lemma cell_score_le:
  assumes B: "\<And>a b. a \<le> m \<Longrightarrow> b \<le> n \<Longrightarrow> matrix ! a ! b \<le> 2 * int (min a b)"
    and i: "1 \<le> i" "i \<le> m" and j: "1 \<le> j" "j \<le> n"
  shows "cell_score matrix query reference i j \<le> 2 * int (min i j)"
proof -
  obtain i' j' where ij: "i = Suc i'" "j = Suc j'"
    using i(1) j(1) by (cases i; cases j) auto
  have d: "matrix ! (i - 1) ! (j - 1) \<le> 2 * int (min i j) - 2"
    using B [of i' j'] i j by (simp add: ij)
  have u: "matrix ! (i - 1) ! j \<le> 2 * int (min i j)"
    using B [of i' j] i j by (simp add: ij(1)) (simp add: ij(2) min_def split: if_splits)
  have l: "matrix ! i ! (j - 1) \<le> 2 * int (min i j)"
    using B [of i j'] i j by (simp add: ij(2)) (simp add: ij(1) min_def split: if_splits)
  have "cell_score matrix query reference i j =
      max 0 (max (matrix ! (i - 1) ! (j - 1)
                   + (if query ! (i - 1) = reference ! (j - 1) then MatchScore else MismatchScore))
            (max (matrix ! (i - 1) ! j + GapPenalty) (matrix ! i ! (j - 1) + GapPenalty)))"
    by (simp only: cell_score_def Let_def smithMax4)
  also have "\<dots> \<le> 2 * int (min i j)"
    using d u l by (simp add: MatchScore_def MismatchScore_def GapPenalty_def)
  finally show ?thesis .
qed

lemma smithMax4_nonneg: "0 \<le> smithMax [0, a, b, c]"
  by (simp add: smithMax4)

lemma shared_ok_init: "shared_ok m n (fill_init m n)"
  by (simp add: shared_ok_def fill_init_def wf_new_matrix nonneg_new_matrix new_matrix_nth)

lemma shared_ok_write:
  assumes "shared_ok m n sh" "0 \<le> v" "1 \<le> i" "1 \<le> j"
  shows "shared_ok m n (sh\<lparr>cur_matrix := set_cell (cur_matrix sh) i j v\<rparr>)"
proof -
  have wf: "wf_matrix (cur_matrix sh) m n" using assms(1) by (simp add: shared_ok_def)
  have "set_cell (cur_matrix sh) i j v ! 0 ! b = 0" if "b \<le> n" for b
    using set_cell_nth [OF wf _ that, of 0 i j v] assms that by (simp add: shared_ok_def)
  moreover have "set_cell (cur_matrix sh) i j v ! a ! 0 = 0" if "a \<le> m" for a
    using set_cell_nth [OF wf that, of 0 i j v] assms that by (simp add: shared_ok_def)
  ultimately show ?thesis
    using assms by (simp add: shared_ok_def wf_set_cell nonneg_set_cell)
qed

lemma shared_ok_max:
  "shared_ok m n sh \<Longrightarrow> i \<le> m \<Longrightarrow> j \<le> n \<Longrightarrow>
   shared_ok m n (sh\<lparr>cur_maxScore := v, cur_maxRow := i, cur_maxCol := j\<rparr>)"
  by (simp add: shared_ok_def)

lemma par_ok_init: "par_ok m n (par_init m n)"
  by (simp add: par_ok_def par_init_def shared_ok_init local_ok_def wave_start_def
      del: replicate_Suc)

lemma par_ok_update:
  assumes "par_ok m n st" "shared_ok m n sh'" "local_ok m n w g'"
  shows "par_ok m n (st\<lparr>shared := sh', waves := (waves st)[w := g']\<rparr>)"
proof -
  have "local_ok m n w' ((waves st)[w := g'] ! w')" if "w' < length (waves st)" for w'
    using that assms(1,3) by (cases "w' = w") (auto simp: par_ok_def)
  then show ?thesis using assms by (simp add: par_ok_def)
qed

lemma par_ok_update_waves:
  assumes "par_ok m n st" "local_ok m n w g'"
  shows "par_ok m n (st\<lparr>waves := (waves st)[w := g']\<rparr>)"
proof -
  have "local_ok m n w' ((waves st)[w := g'] ! w')" if "w' < length (waves st)" for w'
    using that assms by (cases "w' = w") (auto simp: par_ok_def)
  then show ?thesis using assms by (simp add: par_ok_def)
qed

lemma par_ok_step:
  assumes ok: "par_ok (length query) (length reference) st"
  shows "par_ok (length query) (length reference) (wave_step query reference w st)"
proof (cases "2 \<le> w \<and> w \<le> length query + length reference")
  case False
  then show ?thesis using ok by (auto simp: wave_step_def)
next
  case True
  let ?m = "length query" and ?n = "length reference"
  let ?g = "waves st ! w"
  have len: "w < length (waves st)" using ok True by (simp add: par_ok_def)
  then have g: "local_ok ?m ?n w ?g" using ok by (simp add: par_ok_def)
  have sh: "shared_ok ?m ?n (shared st)" using ok by (simp add: par_ok_def)
  show ?thesis
  proof (cases "loc_pc ?g")
    case AtLoop
    show ?thesis
      unfolding wave_step_def Let_def using True AtLoop g ok
      by (auto intro!: par_ok_update_waves [OF ok] simp: local_ok_def)
  next
    case ReadUp
    show ?thesis
      unfolding wave_step_def Let_def using True ReadUp g ok
      by (auto intro!: par_ok_update_waves [OF ok] simp: local_ok_def)
  next
    case ReadLeft
    show ?thesis
      unfolding wave_step_def Let_def using True ReadLeft g ok
      by (auto intro!: par_ok_update_waves [OF ok] simp: local_ok_def)
  next
    case WriteCell
    show ?thesis
      unfolding wave_step_def Let_def using True WriteCell g ok
      by (auto intro!: par_ok_update [OF ok] shared_ok_write [OF sh] smithMax4_nonneg
          simp: local_ok_def)
  next
    case CheckCell
    show ?thesis
      unfolding wave_step_def Let_def using True CheckCell g ok
      by (auto intro!: par_ok_update_waves [OF ok] simp: local_ok_def)
  next
    case UpdateMax
    show ?thesis
      unfolding wave_step_def Let_def using True UpdateMax g ok
      by (auto intro!: par_ok_update [OF ok] par_ok_update_waves [OF ok] shared_ok_max [OF sh] sh
          simp: local_ok_def)
  qed
qed

lemma par_ok_fold:
  "par_ok (length query) (length reference) st \<Longrightarrow>
   par_ok (length query) (length reference) (fold (wave_step query reference) sched st)"
  by (induction sched arbitrary: st) (simp_all add: par_ok_step)

lemma par_fill_ok: "shared_ok (length query) (length reference) (par_fill query reference sched)"
  using par_ok_fold [OF par_ok_init, of query reference
      "sched @ in_order (length query) (length reference)"]
  unfolding par_fill_def par_ok_def by blast

lemma ParallelSmithWaterman_large:
  assumes "50 \<le> length query" "50 \<le> length reference"
  shows "\<exists>aq ar.
     traceback (cur_matrix (par_fill query reference sched)) query reference
       (cur_maxRow (par_fill query reference sched)) (cur_maxCol (par_fill query reference sched))
       = Some (aq, ar) \<and>
     ParallelSmithWaterman query reference numWorkers gomaxprocs sched =
       Some \<lparr>ScoreMatrix_p = cur_matrix (par_fill query reference sched),
             MaxScore_p = cur_maxScore (par_fill query reference sched),
             MaxRow = cur_maxRow (par_fill query reference sched),
             MaxCol = cur_maxCol (par_fill query reference sched),
             AlignedQuery_p = aq, AlignedRef_p = ar\<rparr>"
proof -
  let ?st = "par_fill query reference sched"
  have "wf_matrix (cur_matrix ?st) (length query) (length reference)"
    "cur_maxRow ?st \<le> length query" "cur_maxCol ?st \<le> length reference"
    using par_fill_ok [of query reference sched] unfolding shared_ok_def by blast+
  then obtain aq ar where
    "traceback (cur_matrix ?st) query reference (cur_maxRow ?st) (cur_maxCol ?st) = Some (aq, ar)"
    using traceback_returns [OF _ le_refl le_refl] by blast
  then show ?thesis
    using assms by (simp add: ParallelSmithWaterman_def Let_def parallelTraceback_eq)
qed

lemma ParallelSmithWaterman_small:
  assumes "length query < 50 \<or> length reference < 50"
  shows "\<exists>aq ar.
     SmithWaterman query reference =
       Some \<lparr>ScoreMatrix = cur_matrix (fill query reference),
             MaxScore = cur_maxScore (fill query reference),
             AlignedQuery = aq, AlignedRef = ar\<rparr> \<and>
     ParallelSmithWaterman query reference numWorkers gomaxprocs sched =
       Some \<lparr>ScoreMatrix_p = cur_matrix (fill query reference),
             MaxScore_p = cur_maxScore (fill query reference),
             MaxRow = 0, MaxCol = 0, AlignedQuery_p = aq, AlignedRef_p = ar\<rparr>"
proof -
  obtain aq ar where "SmithWaterman query reference =
       Some \<lparr>ScoreMatrix = cur_matrix (fill query reference),
             MaxScore = cur_maxScore (fill query reference),
             AlignedQuery = aq, AlignedRef = ar\<rparr>"
    using SmithWaterman_returns [of query reference] by blast
  then show ?thesis
    using assms by (auto simp: ParallelSmithWaterman_def Let_def)
qed

section \<open>A sequence against itself\<close>







section \<open>The shape of an alignment\<close>







section \<open>The claims\<close>

text \<open>
  Claim C6, as the code has it. On a matrix of Go integers of the aligner's shape and a
  start cell inside it, one pass of the traceback loop does the following. It ends the
  walk when the row or the column is 0 or the value of the cell is not positive;
  otherwise it takes the first of the diagonal, up and left terms (64-bit sums) that
  equals the value of the cell and emits the pair of symbols of that move (the gap
  marker on the side it does not consume); when no term equals the value it ends the
  walk as well (the safeguard of lines 114-117). The walk ends at a cell, returning
  nothing more, exactly in those four cases. \<^verbatim>\<open>parallelTraceback\<close> does the same.
\<close>

theorem traceback_priority:
  assumes "wf_matrix matrix m n" "row \<le> m" "col \<le> n" "m \<le> length query" "n \<le> length reference"
    and "\<forall>a \<le> m. \<forall>b \<le> n. - (2 ^ 63) \<le> matrix ! a ! b \<and> matrix ! a ! b < 2 ^ 63"
  defines "cur \<equiv> matrix ! row ! col"
    and "qc \<equiv> query ! (row - 1)" and "rc \<equiv> reference ! (col - 1)"
  defines "match \<equiv> (if qc = rc then MatchScore else MismatchScore)"
  defines "diag \<equiv> wrap64 (matrix ! (row - 1) ! (col - 1) + match)"
    and "up \<equiv> wrap64 (matrix ! (row - 1) ! col + GapPenalty)"
    and "left \<equiv> wrap64 (matrix ! row ! (col - 1) + GapPenalty)"
  shows "traceback matrix query reference row col =
           (if row = 0 \<or> col = 0 \<or> cur \<le> 0 then Some ([], [])
            else if cur = diag then
              tb_app (string_of_byte qc) (string_of_byte rc)
                (traceback matrix query reference (row - 1) (col - 1))
            else if cur = up then
              tb_app (string_of_byte qc) ''-'' (traceback matrix query reference (row - 1) col)
            else if cur = left then
              tb_app ''-'' (string_of_byte rc) (traceback matrix query reference row (col - 1))
            else Some ([], []))
         \<and> (traceback matrix query reference row col = Some ([], []) \<longleftrightarrow>
              row = 0 \<or> col = 0 \<or> cur \<le> 0 \<or> (cur \<noteq> diag \<and> cur \<noteq> up \<and> cur \<noteq> left))
         \<and> parallelTraceback matrix query reference row col =
              traceback matrix query reference row col"
proof -
  have w: "wrap64 (matrix ! row ! col) = matrix ! row ! col"
    using assms(2,3,6) by (intro wrap64_id) auto
  show ?thesis
    unfolding cur_def qc_def rc_def match_def diag_def up_def left_def
    by (rule traceback_step [OF assms(1-5), unfolded w])
qed

text \<open>
  The theorem at a cell whose value only the wrapped up term reproduces: the cell above
  holds the least integer, and the penalty added to it wraps around to the value of
  the cell. The walk takes the up move and then ends on column 1 of row 0, whose value
  is negative.
\<close>

theorem traceback_priority_witness:
  "wf_matrix [[0, - (2 ^ 63)], [0, 2 ^ 63 - 2]] 1 1 \<and>
   traceback [[0, - (2 ^ 63)], [0, 2 ^ 63 - 2]] ''A'' ''C'' 1 1 =
     tb_app ''A'' ''-'' (traceback [[0, - (2 ^ 63)], [0, 2 ^ 63 - 2]] ''A'' ''C'' 0 1) \<and>
   traceback [[0, - (2 ^ 63)], [0, 2 ^ 63 - 2]] ''A'' ''C'' 1 1 \<noteq> Some ([], []) \<and>
   parallelTraceback [[0, - (2 ^ 63)], [0, 2 ^ 63 - 2]] ''A'' ''C'' 1 1 =
     traceback [[0, - (2 ^ 63)], [0, 2 ^ 63 - 2]] ''A'' ''C'' 1 1"
proof -
  have wf: "wf_matrix [[0, - (2 ^ 63)], [0, 2 ^ 63 - 2]] 1 1"
    by (simp add: wf_matrix_def)
  have range: "\<forall>a \<le> 1. \<forall>b \<le> 1.
      - (2 ^ 63) \<le> [[0, - (2 ^ 63)], [0, 2 ^ 63 - 2 :: int]] ! a ! b \<and>
      [[0, - (2 ^ 63)], [0, 2 ^ 63 - 2 :: int]] ! a ! b < 2 ^ 63"
    by (simp add: le_Suc_eq all_conj_distrib)
  show ?thesis
    using wf traceback_priority [OF wf _ _ _ _ range, of 1 1 "''A''" "''C''"]
    by (auto simp: MatchScore_def MismatchScore_def GapPenalty_def string_of_byte_def wrap64_def)
qed

text \<open>
  Claim C7: in the sequential aligner the cell \<open>(maxRow, maxCol)\<close> that the fill loops
  hand to \<^verbatim>\<open>traceback\<close> holds the maximum of the matrix, and it is the first cell in
  row-major order that does: every cell with the same value lies in a later row, or in
  the same row at the same or a later column.
\<close>

theorem max_is_first_in_row_major:
  "\<exists>alignedQuery alignedRef.
     traceback (cur_matrix (fill query reference)) query reference
         (cur_maxRow (fill query reference)) (cur_maxCol (fill query reference))
       = Some (alignedQuery, alignedRef) \<and>
     SmithWaterman query reference =
       Some \<lparr>ScoreMatrix = cur_matrix (fill query reference),
             MaxScore = cur_maxScore (fill query reference),
             AlignedQuery = alignedQuery, AlignedRef = alignedRef\<rparr> \<and>
     cur_maxRow (fill query reference) \<le> length query \<and>
     cur_maxCol (fill query reference) \<le> length reference \<and>
     cur_matrix (fill query reference) ! cur_maxRow (fill query reference)
         ! cur_maxCol (fill query reference) = cur_maxScore (fill query reference) \<and>
     (\<forall>a \<le> length query. \<forall>b \<le> length reference.
        cur_matrix (fill query reference) ! a ! b \<le> cur_maxScore (fill query reference)) \<and>
     (\<forall>a \<le> length query. \<forall>b \<le> length reference.
        cur_matrix (fill query reference) ! a ! b = cur_maxScore (fill query reference) \<longrightarrow>
        cur_maxRow (fill query reference) < a \<or>
        (cur_maxRow (fill query reference) = a \<and> cur_maxCol (fill query reference) \<le> b))"
proof -
  note inv = fill_inv_final [of query reference]
  obtain aq ar where
    "traceback (cur_matrix (fill query reference)) query reference
         (cur_maxRow (fill query reference)) (cur_maxCol (fill query reference)) = Some (aq, ar)"
    "SmithWaterman query reference =
       Some \<lparr>ScoreMatrix = cur_matrix (fill query reference),
             MaxScore = cur_maxScore (fill query reference),
             AlignedQuery = aq, AlignedRef = ar\<rparr>"
    using SmithWaterman_returns [of query reference] by blast
  then show ?thesis
    using fill_invD(3) [OF inv] fill_invD(4) [OF inv] fill_invD(5) [OF inv]
      fill_invD(7) [OF inv] fill_invD(8) [OF inv]
    by (intro exI conjI allI impI) assumption+
qed

text \<open>
  On \<open>''AA''\<close> against \<open>''A''\<close> the cells \<open>(1, 1)\<close> and \<open>(2, 1)\<close> both hold the maximum;
  the theorem places the origin at or before \<open>(2, 1)\<close>.
\<close>

theorem max_is_first_in_row_major_witness:
  "cur_matrix (fill ''AA'' ''A'') ! 2 ! 1 = cur_maxScore (fill ''AA'' ''A'') \<and>
   (cur_maxRow (fill ''AA'' ''A'') < 2 \<or>
    (cur_maxRow (fill ''AA'' ''A'') = 2 \<and> cur_maxCol (fill ''AA'' ''A'') \<le> 1))"
proof -
  have "cur_matrix (fill ''AA'' ''A'') ! 2 ! 1 = cur_maxScore (fill ''AA'' ''A'')"
    by code_simp
  moreover have "\<forall>a \<le> length ''AA''. \<forall>b \<le> length ''A''.
      cur_matrix (fill ''AA'' ''A'') ! a ! b = cur_maxScore (fill ''AA'' ''A'') \<longrightarrow>
      cur_maxRow (fill ''AA'' ''A'') < a \<or>
      (cur_maxRow (fill ''AA'' ''A'') = a \<and> cur_maxCol (fill ''AA'' ''A'') \<le> b)"
    using max_is_first_in_row_major [of "''AA''" "''A''"] by blast
  ultimately show ?thesis by simp
qed

text \<open>
  Claim C9: on the matrix the sequential fill produces, every interior cell with a
  positive value equals the diagonal, the up or the left term of the recurrence, so a
  walk that stands on such a cell takes a move: the final \<^verbatim>\<open>else\<close> branch of the
  traceback loop is not reached.
\<close>

theorem safeguard_unreachable:
  "\<exists>res. SmithWaterman query reference = Some res \<and>
     (\<forall>row col. 1 \<le> row \<and> row \<le> length query \<and> 1 \<le> col \<and> col \<le> length reference \<and>
        ScoreMatrix res ! row ! col > 0 \<longrightarrow>
        (ScoreMatrix res ! row ! col = ScoreMatrix res ! (row - 1) ! (col - 1)
             + (if query ! (row - 1) = reference ! (col - 1) then MatchScore else MismatchScore) \<or>
         ScoreMatrix res ! row ! col = ScoreMatrix res ! (row - 1) ! col + GapPenalty \<or>
         ScoreMatrix res ! row ! col = ScoreMatrix res ! row ! (col - 1) + GapPenalty) \<and>
        traceback (ScoreMatrix res) query reference row col \<noteq> Some ([], []))"
proof -
  define M where "M = cur_matrix (fill query reference)"
  have wf: "wf_matrix M (length query) (length reference)"
    unfolding M_def by (rule fill_wf)
  have rec: "M ! row ! col = M ! (row - 1) ! (col - 1)
             + (if query ! (row - 1) = reference ! (col - 1) then MatchScore else MismatchScore) \<or>
         M ! row ! col = M ! (row - 1) ! col + GapPenalty \<or>
         M ! row ! col = M ! row ! (col - 1) + GapPenalty"
    if "1 \<le> row" "row \<le> length query" "1 \<le> col" "col \<le> length reference" "M ! row ! col > 0"
    for row col
    using that unfolding M_def
    by (intro max4_cases [OF fill_recurrence]) auto
  have walk: "traceback M query reference row col \<noteq> Some ([], [])"
    if "1 \<le> row" "row \<le> length query" "1 \<le> col" "col \<le> length reference" "M ! row ! col > 0"
    for row col
  proof -
    note st = traceback_step [OF wf that(2,4) le_refl le_refl, THEN conjunct2, THEN conjunct1]
    show ?thesis unfolding st using rec [OF that] that by auto
  qed
  obtain res where "SmithWaterman query reference = Some res" "ScoreMatrix res = M"
    using SmithWaterman_returns [of query reference] unfolding M_def by auto
  with rec walk show ?thesis by blast
qed

text \<open>The theorem at the last cell of the matrix of \<open>''AC''\<close> against itself.\<close>

theorem safeguard_unreachable_witness:
  "\<exists>res. SmithWaterman ''AC'' ''AC'' = Some res \<and> ScoreMatrix res ! 2 ! 2 = 4 \<and>
     (ScoreMatrix res ! 2 ! 2 = ScoreMatrix res ! 1 ! 1 + MatchScore) \<and>
     traceback (ScoreMatrix res) ''AC'' ''AC'' 2 2 \<noteq> Some ([], [])"
proof -
  obtain res where res: "SmithWaterman ''AC'' ''AC'' = Some res"
    and all: "\<forall>row col. 1 \<le> row \<and> row \<le> length ''AC'' \<and> 1 \<le> col \<and> col \<le> length ''AC'' \<and>
        ScoreMatrix res ! row ! col > 0 \<longrightarrow>
        (ScoreMatrix res ! row ! col = ScoreMatrix res ! (row - 1) ! (col - 1)
             + (if ''AC'' ! (row - 1) = ''AC'' ! (col - 1) then MatchScore else MismatchScore) \<or>
         ScoreMatrix res ! row ! col = ScoreMatrix res ! (row - 1) ! col + GapPenalty \<or>
         ScoreMatrix res ! row ! col = ScoreMatrix res ! row ! (col - 1) + GapPenalty) \<and>
        traceback (ScoreMatrix res) ''AC'' ''AC'' row col \<noteq> Some ([], [])"
    using safeguard_unreachable [of "''AC''" "''AC''"] by blast
  have "map_option ScoreMatrix (SmithWaterman ''AC'' ''AC'') = Some [[0, 0, 0], [0, 2, 0], [0, 0, 4]]"
    by code_simp
  with res have M: "ScoreMatrix res = [[0, 0, 0], [0, 2, 0], [0, 0, 4]]" by simp
  have "traceback (ScoreMatrix res) ''AC'' ''AC'' 2 2 \<noteq> Some ([], [])"
    using all [rule_format, of 2 2] by (simp add: M)
  with res M show ?thesis by (simp add: MatchScore_def)
qed

text \<open>
  Claim C3: every cell of the score matrix an aligner returns is at least 0, and row 0
  and column 0 hold 0. This holds of the sequential aligner and of the parallel aligner
  under every schedule of its goroutines; the matrix has \<open>length query + 1\<close> rows of
  \<open>length reference + 1\<close> cells.
\<close>

theorem score_matrix_nonneg:
  "(\<exists>res. SmithWaterman query reference = Some res \<and>
      wf_matrix (ScoreMatrix res) (length query) (length reference) \<and>
      (\<forall>row \<in> set (ScoreMatrix res). \<forall>v \<in> set row. 0 \<le> v) \<and>
      (\<forall>b \<le> length reference. ScoreMatrix res ! 0 ! b = 0) \<and>
      (\<forall>a \<le> length query. ScoreMatrix res ! a ! 0 = 0)) \<and>
   (\<exists>res. ParallelSmithWaterman query reference numWorkers gomaxprocs sched = Some res \<and>
      wf_matrix (ScoreMatrix_p res) (length query) (length reference) \<and>
      (\<forall>row \<in> set (ScoreMatrix_p res). \<forall>v \<in> set row. 0 \<le> v) \<and>
      (\<forall>b \<le> length reference. ScoreMatrix_p res ! 0 ! b = 0) \<and>
      (\<forall>a \<le> length query. ScoreMatrix_p res ! a ! 0 = 0))"
proof -
  let ?M = "cur_matrix (fill query reference)"
  have seq: "wf_matrix ?M (length query) (length reference)"
    "\<forall>row \<in> set ?M. \<forall>v \<in> set row. 0 \<le> v"
    "\<forall>b \<le> length reference. ?M ! 0 ! b = 0"
    "\<forall>a \<le> length query. ?M ! a ! 0 = 0"
    using fill_wf [of query reference] fill_nonneg [of _ query reference]
    by (auto simp: fill_matrix spec_cell_boundary)
  obtain res where res: "SmithWaterman query reference = Some res" "ScoreMatrix res = ?M"
    using SmithWaterman_returns [of query reference] by auto
  have first: "\<exists>res. SmithWaterman query reference = Some res \<and>
      wf_matrix (ScoreMatrix res) (length query) (length reference) \<and>
      (\<forall>row \<in> set (ScoreMatrix res). \<forall>v \<in> set row. 0 \<le> v) \<and>
      (\<forall>b \<le> length reference. ScoreMatrix res ! 0 ! b = 0) \<and>
      (\<forall>a \<le> length query. ScoreMatrix res ! a ! 0 = 0)"
    using res seq by (intro exI [of _ res]) simp
  have second: "\<exists>res. ParallelSmithWaterman query reference numWorkers gomaxprocs sched = Some res \<and>
      wf_matrix (ScoreMatrix_p res) (length query) (length reference) \<and>
      (\<forall>row \<in> set (ScoreMatrix_p res). \<forall>v \<in> set row. 0 \<le> v) \<and>
      (\<forall>b \<le> length reference. ScoreMatrix_p res ! 0 ! b = 0) \<and>
      (\<forall>a \<le> length query. ScoreMatrix_p res ! a ! 0 = 0)"
  proof (cases "length query < 50 \<or> length reference < 50")
    case True
    obtain pres where "ParallelSmithWaterman query reference numWorkers gomaxprocs sched = Some pres"
      "ScoreMatrix_p pres = ?M"
      using ParallelSmithWaterman_small [OF True, of numWorkers gomaxprocs sched] by auto
    then show ?thesis using seq by (intro exI [of _ pres]) simp
  next
    case False
    let ?P = "cur_matrix (par_fill query reference sched)"
    have par: "wf_matrix ?P (length query) (length reference)"
      "\<forall>row \<in> set ?P. \<forall>v \<in> set row. 0 \<le> v"
      "\<forall>b \<le> length reference. ?P ! 0 ! b = 0"
      "\<forall>a \<le> length query. ?P ! a ! 0 = 0"
      using par_fill_ok [of query reference sched]
      unfolding shared_ok_def nonneg_matrix_def by blast+
    obtain pres where "ParallelSmithWaterman query reference numWorkers gomaxprocs sched = Some pres"
      "ScoreMatrix_p pres = ?P"
      using ParallelSmithWaterman_large [of query reference sched numWorkers gomaxprocs] False
      by auto
    then show ?thesis using par by (intro exI [of _ pres]) simp
  qed
  from first second show ?thesis by (rule conjI)
qed

text \<open>
  The theorem on \<open>''AC''\<close> against itself, at the last cell and at a cell of row 0.
\<close>

theorem score_matrix_nonneg_witness:
  "(\<exists>res. SmithWaterman ''AC'' ''AC'' = Some res \<and> 0 \<le> ScoreMatrix res ! 2 ! 2 \<and>
      ScoreMatrix res ! 0 ! 1 = 0) \<and>
   (\<exists>res. ParallelSmithWaterman ''AC'' ''AC'' 4 8 [3, 2] = Some res \<and>
      0 \<le> ScoreMatrix_p res ! 2 ! 2 \<and> ScoreMatrix_p res ! 0 ! 1 = 0)"
proof -
  note inst = score_matrix_nonneg [of "''AC''" "''AC''" 4 8 "[3, 2]"]
  from inst obtain res where res: "SmithWaterman ''AC'' ''AC'' = Some res"
    and wf: "wf_matrix (ScoreMatrix res) (length ''AC'') (length ''AC'')"
    and nn: "\<forall>row \<in> set (ScoreMatrix res). \<forall>v \<in> set row. 0 \<le> v"
    and z: "\<forall>b \<le> length ''AC''. ScoreMatrix res ! 0 ! b = 0"
    by blast
  from inst obtain pres where pres: "ParallelSmithWaterman ''AC'' ''AC'' 4 8 [3, 2] = Some pres"
    and pwf: "wf_matrix (ScoreMatrix_p pres) (length ''AC'') (length ''AC'')"
    and pnn: "\<forall>row \<in> set (ScoreMatrix_p pres). \<forall>v \<in> set row. 0 \<le> v"
    and pz: "\<forall>b \<le> length ''AC''. ScoreMatrix_p pres ! 0 ! b = 0"
    by blast
  have wf2: "wf_matrix (ScoreMatrix res) 2 2" "wf_matrix (ScoreMatrix_p pres) 2 2"
    using wf pwf by (simp_all add: numeral_2_eq_2)
  have nnm: "nonneg_matrix (ScoreMatrix res)" "nonneg_matrix (ScoreMatrix_p pres)"
    using nn pnn by (simp_all add: nonneg_matrix_def)
  have "0 \<le> ScoreMatrix res ! 2 ! 2"
    by (rule nonneg_nth [OF nnm(1) wf2(1)]) simp_all
  moreover have "0 \<le> ScoreMatrix_p pres ! 2 ! 2"
    by (rule nonneg_nth [OF nnm(2) wf2(2)]) simp_all
  ultimately show ?thesis using res pres z pz by auto
qed







end
